theory Spec2Isabelle
  imports Main
begin

section \<open>Strings, errors and the library the tokenizer calls\<close>

text \<open>
  A Python \<^verbatim>\<open>str\<close> is a sequence of Unicode code points, so a string is a list of
  naturals: \<^verbatim>\<open>len\<close> counts code points, and the patterns of \<^verbatim>\<open>base.py\<close> name code
  points (\<^verbatim>\<open><\<close> is 60, the first diacritical is U+0313).
\<close>

type_synonym codepoint = nat
type_synonym ustr = "codepoint list"

text \<open>The \<^verbatim>\<open>raw\<close> argument is documented as \<^verbatim>\<open>str or list of str\<close>.\<close>

datatype raw_input = Str ustr | StrList "ustr list"

text \<open>
  The exceptions that leave \<^verbatim>\<open>tokenize\<close>. \<open>AlignmentBoundsError\<close> and
  \<open>CollaboratorUnavailable\<close> are the fault kinds the specification names; no statement
  of \<^verbatim>\<open>base.py\<close> raises either of them, a collaborator may.
\<close>

datatype error =
    NotImplementedError
  | AttributeError
  | TypeError
  | IndexError
  | AlignmentBoundsError
  | CollaboratorUnavailable

text \<open>
  What \<^verbatim>\<open>base.py\<close> takes from the standard library depends on the Unicode character
  database, which is no part of the repository: \<^verbatim>\<open>unicodedata.normalize('NFKD', _)\<close>,
  \<^verbatim>\<open>str.lower\<close>, and the classes \<^verbatim>\<open>\w\<close> and \<^verbatim>\<open>\s\<close> of \<^verbatim>\<open>re\<close> under
  \<^verbatim>\<open>re.UNICODE\<close>. They are parameters of the model.
\<close>

record unicode =
  uni_nfkd :: "ustr \<Rightarrow> ustr"
  str_lower :: "ustr \<Rightarrow> ustr"
  re_w :: "codepoint \<Rightarrow> bool"
  re_s :: "codepoint \<Rightarrow> bool"

text \<open>
  The four tables on the code points below 128, where they need no database: NFKD leaves
  ASCII unchanged, \<^verbatim>\<open>lower\<close> adds 32 to \<^verbatim>\<open>A-Z\<close>, \<^verbatim>\<open>\w\<close> is \<^verbatim>\<open>[a-zA-Z0-9_]\<close> and
  \<^verbatim>\<open>\s\<close> is tab, newline, vertical tab, form feed, carriage return, the four separators
  28 to 31 and the space. The concrete runs below use them on ASCII input only.
\<close>

definition ascii_lower :: "codepoint \<Rightarrow> codepoint" where
  "ascii_lower c = (if 65 \<le> c \<and> c \<le> 90 then c + 32 else c)"

definition ascii_w :: "codepoint \<Rightarrow> bool" where
  "ascii_w c \<longleftrightarrow>
     (97 \<le> c \<and> c \<le> 122) \<or> (65 \<le> c \<and> c \<le> 90) \<or> (48 \<le> c \<and> c \<le> 57) \<or> c = 95"

definition ascii_s :: "codepoint \<Rightarrow> bool" where
  "ascii_s c \<longleftrightarrow> (9 \<le> c \<and> c \<le> 13) \<or> (28 \<le> c \<and> c \<le> 32)"

definition ascii :: unicode where
  "ascii = \<lparr>uni_nfkd = (\<lambda>s. s), str_lower = map ascii_lower, re_w = ascii_w, re_s = ascii_s\<rparr>"

section \<open>The attributes set by \<^verbatim>\<open>__init__\<close>\<close>

text \<open>\<^verbatim>\<open>self.word_characters = 'a-zA-Z'\<close>, always used inside a character class.\<close>

definition word_characters :: "codepoint \<Rightarrow> bool" where
  "word_characters c \<longleftrightarrow> (97 \<le> c \<and> c \<le> 122) \<or> (65 \<le> c \<and> c \<le> 90)"

text \<open>\<^verbatim>\<open>self.diacriticals\<close>: U+0313, U+0314, U+0301, U+0342, U+0300, U+0301, U+0308, U+0345.\<close>

definition diacriticals :: "codepoint list" where
  "diacriticals = [787, 788, 769, 834, 768, 769, 776, 837]"

section \<open>The regular expressions\<close>

text \<open>
  \<^verbatim>\<open>[<].+[>][\s]\<close> at the head of a string. The dot takes no newline (code point 10) and
  is greedy, so the match runs from the \<^verbatim>\<open><\<close> to the last \<^verbatim>\<open>>\<close> that follows at least
  one character, stands before the first newline and has a whitespace character behind
  it. \<open>last_close\<close> walks the text behind the \<^verbatim>\<open><\<close> and keeps the position of the last
  such \<^verbatim>\<open>>\<close>; \<open>annotation\<close> is the length of the match.
\<close>

fun last_close :: "unicode \<Rightarrow> ustr \<Rightarrow> nat \<Rightarrow> nat option \<Rightarrow> nat option" where
  "last_close U (c # d # cs) k best =
     (if c = 10 then best
      else last_close U (d # cs) (Suc k)
             (if 0 < k \<and> c = 62 \<and> re_s U d then Some k else best))"
| "last_close U cs k best = best"

definition annotation :: "unicode \<Rightarrow> ustr \<Rightarrow> nat option" where
  "annotation U s =
     (case s of
        [] \<Rightarrow> None
      | c # rest \<Rightarrow>
          if c = 60 then map_option (\<lambda>k. k + 3) (last_close U rest 0 None) else None)"

text \<open>
  \<^verbatim>\<open>self.split_pattern\<close>, the alternatives tried in the order they are written:
  the annotation, \<^verbatim>\<open>" / "\<close>, \<^verbatim>\<open>" . . ."\<close>, \<^verbatim>\<open>".~.~."\<close>, and one character that is neither
  \<^verbatim>\<open>\w\<close> nor a diacritical. The result is the length of the match at the head.
\<close>

definition split_pattern :: "unicode \<Rightarrow> ustr \<Rightarrow> nat option" where
  "split_pattern U s =
     (case annotation U s of
        Some l \<Rightarrow> Some l
      | None \<Rightarrow>
          if take 3 s = [32, 47, 32] then Some 3
          else if take 6 s = [32, 46, 32, 46, 32, 46] then Some 6
          else if take 5 s = [46, 126, 46, 126, 46] then Some 5
          else (case s of
                  [] \<Rightarrow> None
                | c # _ \<Rightarrow> if \<not> re_w U c \<and> c \<notin> set diacriticals then Some 1 else None))"

text \<open>\<^verbatim>\<open>'( / )|([^a-zA-Z])'\<close>, the pattern of the display split.\<close>

definition display_pattern :: "ustr \<Rightarrow> nat option" where
  "display_pattern s =
     (if take 3 s = [32, 47, 32] then Some 3
      else (case s of
              [] \<Rightarrow> None
            | c # _ \<Rightarrow> if \<not> word_characters c then Some 1 else None))"

text \<open>
  \<^verbatim>\<open>re.split\<close> for a pattern given by its match length at the head of the remaining
  text (every pattern above matches at least one character). \<open>seg\<close> is the piece
  collected since the last match. With \<open>groups\<close> the pattern's capture groups cover the
  whole match, and \<^verbatim>\<open>re.split\<close> puts the matched text between the pieces.
\<close>

function re_split :: "(ustr \<Rightarrow> nat option) \<Rightarrow> bool \<Rightarrow> ustr \<Rightarrow> ustr \<Rightarrow> ustr list" where
  "re_split m groups seg [] = [seg]"
| "re_split m groups seg (c # cs) =
     (case m (c # cs) of
        None \<Rightarrow> re_split m groups (seg @ [c]) cs
      | Some l \<Rightarrow>
          seg # (if groups then [take l (c # cs)] else []) @ re_split m groups [] (drop (l - 1) cs))"
  by pat_completeness auto
termination
  by (relation "measure (\<lambda>(m, groups, seg, s). length s)") auto

text \<open>\<^verbatim>\<open>re.sub(r'<.+>\s', '', raw)\<close>: every match, left to right, is removed.\<close>

function sub_annotation :: "unicode \<Rightarrow> ustr \<Rightarrow> ustr" where
  "sub_annotation U [] = []"
| "sub_annotation U (c # cs) =
     (case annotation U (c # cs) of
        None \<Rightarrow> c # sub_annotation U cs
      | Some l \<Rightarrow> sub_annotation U (drop (l - 1) cs))"
  by pat_completeness auto
termination
  by (relation "measure (\<lambda>(U, s). length s)") auto

text \<open>\<^verbatim>\<open>re.sub(r'[\n]', r' / ', raw)\<close>.\<close>

definition sub_newline :: "ustr \<Rightarrow> ustr" where
  "sub_newline s = concat (map (\<lambda>c. if c = 10 then [32, 47, 32] else [c]) s)"

section \<open>\<^verbatim>\<open>normalize\<close> and \<^verbatim>\<open>sound_trigrams\<close>\<close>

text \<open>\<^verbatim>\<open>' '.join(raw)\<close>.\<close>

fun join_space :: "ustr list \<Rightarrow> ustr" where
  "join_space [] = []"
| "join_space [x] = x"
| "join_space (x # y # ys) = x @ [32] @ join_space (y # ys)"

definition normalize :: "unicode \<Rightarrow> raw_input \<Rightarrow> ustr" where
  "normalize U raw =
     (let raw' = (case raw of StrList xs \<Rightarrow> join_space xs | Str s \<Rightarrow> s)
      in str_lower U (uni_nfkd U raw'))"

text \<open>
  The loop of \<^verbatim>\<open>sound_trigrams\<close>; \<^verbatim>\<open>word[b:e]\<close> with \<open>0 \<le> b \<le> e\<close> is
  \<open>drop b (take e word)\<close>.
\<close>

function trigram_loop :: "'a list \<Rightarrow> 'a list list \<Rightarrow> nat \<Rightarrow> nat \<Rightarrow> 'a list list" where
  "trigram_loop word trigrams begin_slice end_slice =
     (if end_slice \<le> length word
      then trigram_loop word (trigrams @ [drop begin_slice (take end_slice word)])
             (begin_slice + 1) (end_slice + 1)
      else trigrams)"
  by pat_completeness auto
termination
  by (relation "measure (\<lambda>(word, trigrams, b, e). Suc (length word) - e)") auto

definition sound_trigrams :: "'a list \<Rightarrow> 'a list list" where
  "sound_trigrams word = trigram_loop word [] 0 3"

section \<open>The entities and the session state\<close>

text \<open>
  Modelled from the spec: the entity classes \<^verbatim>\<open>Text\<close>, \<^verbatim>\<open>FeatureSet\<close>, \<^verbatim>\<open>Frequency\<close> and
  \<^verbatim>\<open>Token\<close> come from \<^verbatim>\<open>tesserae.db\<close>, which is not among the sources. Their fields are
  the keyword arguments \<^verbatim>\<open>tokenize\<close> passes and the record shapes of the specification;
  a constructor stores its arguments. \<^verbatim>\<open>tokenize\<close> never assigns to a field of an
  object it has built, so an object is its address (\<open>fs_addr\<close>, \<open>fq_addr\<close>: the identity
  \<^verbatim>\<open>is\<close> compares) together with its contents.
\<close>

record text_meta =
  tx_language :: "ustr option"

record 'v feature_set =
  fs_addr :: nat
  fs_form :: ustr
  fs_language :: "ustr option"
  fs_features :: "(ustr \<times> 'v) list"

record 'v frequency =
  fq_addr :: nat
  fq_text :: "text_meta option"
  fq_feature_set :: "'v feature_set"
  fq_frequency :: int

record 'v token =
  tk_text :: "text_meta option"
  tk_index :: nat
  tk_display :: ustr
  tk_feature_set :: "'v feature_set option"
  tk_frequency :: "'v frequency option"

text \<open>The three attributes \<^verbatim>\<open>clear\<close> sets: \<^verbatim>\<open>self.tokens\<close>, \<^verbatim>\<open>self.frequencies\<close>, \<^verbatim>\<open>self.feature_sets\<close>.\<close>

record 'v tokenizer =
  self_tokens :: "'v token list"
  self_frequencies :: "ustr \<rightharpoonup> int"
  self_feature_sets :: "ustr \<rightharpoonup> 'v feature_set"

definition clear :: "'v tokenizer" where
  "clear = \<lparr>self_tokens = [], self_frequencies = Map.empty, self_feature_sets = Map.empty\<rparr>"

text \<open>
  What a call reaches outside \<^verbatim>\<open>base.py\<close>: the \<^verbatim>\<open>featurize\<close> of the language's subclass
  (one feature dictionary for each normalized token is what it should return) and
  \<^verbatim>\<open>self.connection.find('feature_sets', language=...)\<close>. Either may raise.
\<close>

record 'v collaborators =
  featurize :: "ustr list \<Rightarrow> error + (ustr \<times> 'v) list list"
  connection_find :: "ustr option \<Rightarrow> error + 'v feature_set list"

text \<open>\<^verbatim>\<open>BaseTokenizer.featurize\<close> itself.\<close>

definition base_featurize :: "ustr list \<Rightarrow> error + (ustr \<times> 'v) list list" where
  "base_featurize normalized = Inl NotImplementedError"

section \<open>\<^verbatim>\<open>collections.Counter\<close>\<close>

definition Counter :: "ustr list \<Rightarrow> (ustr \<rightharpoonup> int)" where
  "Counter xs = (\<lambda>k. if k \<in> set xs then Some (int (count_list xs k)) else None)"

text \<open>\<^verbatim>\<open>c[k]\<close>: a missing key reads as 0.\<close>

definition counter_get :: "(ustr \<rightharpoonup> int) \<Rightarrow> ustr \<Rightarrow> int" where
  "counter_get c k = (case c k of None \<Rightarrow> 0 | Some v \<Rightarrow> v)"

text \<open>\<^verbatim>\<open>c.update(other)\<close>: the counts of \<open>other\<close> are added.\<close>

definition counter_update :: "(ustr \<rightharpoonup> int) \<Rightarrow> (ustr \<rightharpoonup> int) \<Rightarrow> (ustr \<rightharpoonup> int)" where
  "counter_update c other =
     (\<lambda>k. case other k of None \<Rightarrow> c k | Some v \<Rightarrow> Some (v + counter_get c k))"

section \<open>\<^verbatim>\<open>tokenize\<close>\<close>

text \<open>Lines 113 to 115: the normalized stream.\<close>

definition normalized_split :: "unicode \<Rightarrow> raw_input \<Rightarrow> ustr list" where
  "normalized_split U raw =
     filter (\<lambda>n. n \<noteq> []) (re_split (split_pattern U) False [] (normalize U raw))"

text \<open>Lines 116 to 118: the display stream.\<close>

definition display_split :: "unicode \<Rightarrow> ustr \<Rightarrow> ustr list" where
  "display_split U raw =
     filter (\<lambda>t. t \<noteq> [])
       (re_split display_pattern True [] (sub_newline (sub_annotation U raw)))"

text \<open>\<^verbatim>\<open>re.search('[a-zA-Z]', d)\<close>.\<close>

definition word_bearing :: "ustr \<Rightarrow> bool" where
  "word_bearing d = list_ex word_characters d"

text \<open>\<^verbatim>\<open>{fs.form: fs for fs in feature_sets}\<close>: a later entry replaces an earlier one.\<close>

definition by_form :: "'v feature_set list \<Rightarrow> (ustr \<rightharpoonup> 'v feature_set)" where
  "by_form found = fold (\<lambda>fs m. m(fs_form fs \<mapsto> fs)) found Map.empty"

text \<open>
  \<^verbatim>\<open>FeatureSet(form=n, language=language, **f)\<close> is a \<^verbatim>\<open>TypeError\<close> when \<open>f\<close> has
  the key \<^verbatim>\<open>'form'\<close> or \<^verbatim>\<open>'language'\<close>: the keyword would be given twice.
\<close>

definition keyword_twice :: "(ustr \<times> 'v) list \<Rightarrow> bool" where
  "keyword_twice f \<longleftrightarrow>
     map_of f [102, 111, 114, 109] \<noteq> None \<or>
     map_of f [108, 97, 110, 103, 117, 97, 103, 101] \<noteq> None"

text \<open>
  The variables the loop of lines 145 to 172 changes, and \<open>r_free\<close>, the address the next
  object built gets.
\<close>

record 'v run =
  r_tokens :: "'v token list"
  r_frequency_list :: "(ustr \<times> 'v frequency) list"
  r_feature_sets :: "ustr \<rightharpoonup> 'v feature_set"
  r_new_feature_sets :: "'v feature_set list"
  r_norm_i :: nat
  r_free :: nat

text \<open>Lines 153 to 158.\<close>

definition resolve_feature_set ::
  "ustr option \<Rightarrow> ustr \<Rightarrow> (ustr \<times> 'v) list \<Rightarrow> 'v run \<Rightarrow> error + 'v feature_set \<times> 'v run" where
  "resolve_feature_set language n f r =
     (case r_feature_sets r n of
        Some feature_set \<Rightarrow> Inr (feature_set, r)
      | None \<Rightarrow>
          if keyword_twice f then Inl TypeError
          else
            let feature_set =
                  \<lparr>fs_addr = r_free r, fs_form = n, fs_language = language, fs_features = f\<rparr>
            in Inr (feature_set,
                    r\<lparr>r_feature_sets := (r_feature_sets r)(n \<mapsto> feature_set),
                      r_new_feature_sets := r_new_feature_sets r @ [feature_set],
                      r_free := Suc (r_free r)\<rparr>))"

text \<open>Lines 160 to 166.\<close>

definition resolve_frequency ::
  "(ustr \<rightharpoonup> int) \<Rightarrow> text_meta option \<Rightarrow> ustr \<Rightarrow> 'v feature_set \<Rightarrow> 'v run \<Rightarrow>
     'v frequency \<times> 'v run" where
  "resolve_frequency frequencies text n feature_set r =
     (case map_of (r_frequency_list r) n of
        Some frequency \<Rightarrow> (frequency, r)
      | None \<Rightarrow>
          let frequency =
                \<lparr>fq_addr = r_free r, fq_text = text, fq_feature_set = feature_set,
                 fq_frequency = counter_get frequencies n\<rparr>
          in (frequency,
              r\<lparr>r_frequency_list := r_frequency_list r @ [(n, frequency)],
                r_free := Suc (r_free r)\<rparr>))"

text \<open>
  The body of the loop for the display token \<open>d\<close> at position \<open>i\<close>. The two subscripts
  \<^verbatim>\<open>normalized[norm_i]\<close> and \<^verbatim>\<open>featurized[norm_i]\<close> raise \<^verbatim>\<open>IndexError\<close> past the end;
  no other check stands before them.
\<close>

definition loop_body ::
  "ustr list \<Rightarrow> (ustr \<times> 'v) list list \<Rightarrow> (ustr \<rightharpoonup> int) \<Rightarrow> text_meta option \<Rightarrow> ustr option \<Rightarrow>
     nat \<Rightarrow> nat \<Rightarrow> ustr \<Rightarrow> 'v run \<Rightarrow> error + 'v run" where
  "loop_body normalized featurized frequencies text language base i d r =
     (let idx = i + base in
      if word_bearing d then
        if length normalized \<le> r_norm_i r then Inl IndexError
        else
          let n = normalized ! r_norm_i r in
          if length featurized \<le> r_norm_i r then Inl IndexError
          else
            let f = featurized ! r_norm_i r in
            case resolve_feature_set language n f r of
              Inl e \<Rightarrow> Inl e
            | Inr (feature_set, r1) \<Rightarrow>
                let (frequency, r2) = resolve_frequency frequencies text n feature_set r1;
                    t = \<lparr>tk_text = text, tk_index = idx, tk_display = d,
                         tk_feature_set = Some feature_set, tk_frequency = Some frequency\<rparr>
                in Inr (r2\<lparr>r_norm_i := r_norm_i r2 + 1, r_tokens := r_tokens r2 @ [t]\<rparr>)
      else
        let t = \<lparr>tk_text = text, tk_index = idx, tk_display = d,
                 tk_feature_set = None, tk_frequency = None\<rparr>
        in Inr (r\<lparr>r_tokens := r_tokens r @ [t]\<rparr>))"

text \<open>\<^verbatim>\<open>for i, d in enumerate(display)\<close>, left at the first exception.\<close>

fun for_enumerate ::
  "(nat \<Rightarrow> ustr \<Rightarrow> 'v run \<Rightarrow> error + 'v run) \<Rightarrow> nat \<Rightarrow> ustr list \<Rightarrow> 'v run \<Rightarrow> error + 'v run" where
  "for_enumerate body i [] r = Inr r"
| "for_enumerate body i (d # display) r =
     (case body i d r of
        Inl e \<Rightarrow> Inl e
      | Inr r' \<Rightarrow> for_enumerate body (Suc i) display r')"

text \<open>Lines 122 to 172, from the three streams and the result of the seed lookup.\<close>

definition assemble ::
  "nat \<Rightarrow> 'v tokenizer \<Rightarrow> ustr list \<Rightarrow> ustr list \<Rightarrow> (ustr \<times> 'v) list list \<Rightarrow>
     'v feature_set list \<Rightarrow> text_meta \<Rightarrow> error + 'v run" where
  "assemble free self normalized display featurized found text =
     for_enumerate
       (loop_body normalized featurized (Counter normalized) (Some text) (tx_language text)
          (length (self_tokens self)))
       0 display
       \<lparr>r_tokens = [], r_frequency_list = [], r_feature_sets = by_form found,
        r_new_feature_sets = [], r_norm_i = 0, r_free = free\<rparr>"

text \<open>Lines 175 to 181.\<close>

definition record_run :: "'v tokenizer \<Rightarrow> ustr list \<Rightarrow> 'v run \<Rightarrow> 'v tokenizer" where
  "record_run self normalized r =
     self\<lparr>self_tokens := self_tokens self @ r_tokens r,
          self_frequencies :=
            counter_update ((self_frequencies self)([] := None)) (Counter normalized),
          self_feature_sets := self_feature_sets self ++ r_feature_sets r\<rparr>"

text \<open>
  \<^verbatim>\<open>tokenize(self, raw, record, text)\<close>: the returned triple or the exception, and the
  session state afterwards. \<open>free\<close> is the first unused address when the call starts.
  A list for \<open>raw\<close> passes \<^verbatim>\<open>normalize\<close> and fails in \<^verbatim>\<open>re.sub\<close> (line 116), which
  takes a string; \<^verbatim>\<open>text.language\<close> (line 127) is read before the \<^verbatim>\<open>try\<close> blocks of
  lines 132 to 140, so with \<^verbatim>\<open>text=None\<close> it raises \<^verbatim>\<open>AttributeError\<close> there.
\<close>

definition tokenize ::
  "unicode \<Rightarrow> 'v collaborators \<Rightarrow> nat \<Rightarrow> 'v tokenizer \<Rightarrow> raw_input \<Rightarrow> bool \<Rightarrow> text_meta option \<Rightarrow>
     (error + 'v token list \<times> 'v frequency list \<times> 'v feature_set list) \<times> 'v tokenizer" where
  "tokenize U C free self raw record text =
     (let normalized = normalized_split U raw in
      case raw of
        StrList xs \<Rightarrow> (Inl TypeError, self)
      | Str s \<Rightarrow>
          let display = display_split U s in
          case featurize C normalized of
            Inl e \<Rightarrow> (Inl e, self)
          | Inr featurized \<Rightarrow>
              (case text of
                 None \<Rightarrow> (Inl AttributeError, self)
               | Some tx \<Rightarrow>
                   (case connection_find C (tx_language tx) of
                      Inl e \<Rightarrow> (Inl e, self)
                    | Inr found \<Rightarrow>
                        (case assemble free self normalized display featurized found tx of
                           Inl e \<Rightarrow> (Inl e, self)
                         | Inr r \<Rightarrow>
                             ((Inr (r_tokens r, map snd (r_frequency_list r),
                                    r_new_feature_sets r)),
                              if record then record_run self normalized r else self)))))"

text \<open>
  A subclass and a store for the concrete runs: \<open>plain\<close> gives every normalized token the
  empty feature dictionary and finds no persisted feature set; \<open>seeded found\<close> finds the
  list \<open>found\<close> for every language. \<open>py\<close> reads an ASCII literal as a Python string.
\<close>

definition seeded :: "'v feature_set list \<Rightarrow> 'v collaborators" where
  "seeded found =
     \<lparr>featurize = (\<lambda>normalized. Inr (map (\<lambda>n. []) normalized)),
      connection_find = (\<lambda>language. Inr found)\<rparr>"

definition plain :: "'v collaborators" where
  "plain = seeded []"

definition py :: "string \<Rightarrow> ustr" where
  "py s = map of_char s"

section \<open>The vocabulary of the properties\<close>

text \<open>
  The word-bearing display token at position \<open>i\<close> reads the normalized stream at the
  number of word-bearing display tokens before it.
\<close>

definition words_before :: "ustr list \<Rightarrow> nat \<Rightarrow> nat" where
  "words_before display i = length (filter word_bearing (take i display))"

text \<open>A call that raised nothing, its tokens and its new feature sets.\<close>

definition returned :: "(error + 'r) \<times> 's \<Rightarrow> bool" where
  "returned call = (case fst call of Inl e \<Rightarrow> False | Inr res \<Rightarrow> True)"

definition tokens_of :: "(error + 'a list \<times> 'b \<times> 'c) \<times> 's \<Rightarrow> 'a list" where
  "tokens_of call = (case fst call of Inl e \<Rightarrow> [] | Inr (toks, fqs, nfs) \<Rightarrow> toks)"

definition new_feature_sets_of :: "(error + 'a \<times> 'b \<times> 'c list) \<times> 's \<Rightarrow> 'c list" where
  "new_feature_sets_of call = (case fst call of Inl e \<Rightarrow> [] | Inr (toks, fqs, nfs) \<Rightarrow> nfs)"

text \<open>The text metadata of the concrete runs: a text whose language is null.\<close>

definition no_language :: text_meta where
  "no_language = \<lparr>tx_language = None\<rparr>"

section \<open>The loop, step by step\<close>

lemma resolve_feature_set_Inr:
  assumes "resolve_feature_set language n f r = Inr (fs, r1)"
  shows "r_feature_sets r1 n = Some fs"
    and "r_tokens r1 = r_tokens r"
    and "r_norm_i r1 = r_norm_i r"
    and "r_frequency_list r1 = r_frequency_list r"
    and "r_feature_sets r m = Some fs' \<Longrightarrow> r_feature_sets r1 m = Some fs'"
    and "r_feature_sets r n = Some fs' \<Longrightarrow> r1 = r"
    and "r_feature_sets r n = None \<Longrightarrow>
           fs = \<lparr>fs_addr = r_free r, fs_form = n, fs_language = language, fs_features = f\<rparr> \<and>
           r_new_feature_sets r1 = r_new_feature_sets r @ [fs] \<and>
           r_feature_sets r1 = (r_feature_sets r)(n \<mapsto> fs)"
  using assms
  by (auto simp: resolve_feature_set_def Let_def split: option.splits if_splits)

lemma resolve_frequency_eq:
  assumes "resolve_frequency T tx n fs r = (fq, r2)"
  shows "map_of (r_frequency_list r2) n = Some fq"
    and "r_tokens r2 = r_tokens r"
    and "r_norm_i r2 = r_norm_i r"
    and "r_feature_sets r2 = r_feature_sets r"
    and "r_new_feature_sets r2 = r_new_feature_sets r"
    and "map_of (r_frequency_list r) m = Some fq' \<Longrightarrow> map_of (r_frequency_list r2) m = Some fq'"
    and "map_of (r_frequency_list r) n = Some fq' \<Longrightarrow> r2 = r"
    and "map_of (r_frequency_list r) n = None \<Longrightarrow>
           fq = \<lparr>fq_addr = r_free r, fq_text = tx, fq_feature_set = fs,
                 fq_frequency = counter_get T n\<rparr> \<and>
           r_frequency_list r2 = r_frequency_list r @ [(n, fq)]"
  using assms
  by (auto simp: resolve_frequency_def Let_def map_add_def split: option.splits if_splits)

lemma loop_body_cases [consumes 1, case_names plain word]:
  assumes "loop_body N F T tx lang base i d r = Inr r'"
  obtains (plain) "\<not> word_bearing d"
      "r' = r\<lparr>r_tokens := r_tokens r @
              [\<lparr>tk_text = tx, tk_index = i + base, tk_display = d,
                tk_feature_set = None, tk_frequency = None\<rparr>]\<rparr>"
  | (word) fs r1 fq r2 where "word_bearing d"
      "r_norm_i r < length N" "r_norm_i r < length F"
      "resolve_feature_set lang (N ! r_norm_i r) (F ! r_norm_i r) r = Inr (fs, r1)"
      "resolve_frequency T tx (N ! r_norm_i r) fs r1 = (fq, r2)"
      "r' = r2\<lparr>r_norm_i := r_norm_i r2 + 1,
               r_tokens := r_tokens r2 @
                 [\<lparr>tk_text = tx, tk_index = i + base, tk_display = d,
                   tk_feature_set = Some fs, tk_frequency = Some fq\<rparr>]\<rparr>"
  using assms
  by (auto simp: loop_body_def Let_def split: if_splits sum.splits prod.splits)

lemma loop_body_norm_i:
  assumes "loop_body N F T tx lang base i d r = Inr r'"
  shows "r_norm_i r' = r_norm_i r + (if word_bearing d then 1 else 0)"
    and "word_bearing d \<Longrightarrow> r_norm_i r < length N \<and> r_norm_i r < length F"
  using assms
  by (auto elim!: loop_body_cases simp: resolve_feature_set_Inr resolve_frequency_eq)

lemma loop_body_feature_sets_mono:
  assumes "loop_body N F T tx lang base i d r = Inr r'"
    and "r_feature_sets r m = Some fs'"
  shows "r_feature_sets r' m = Some fs'"
  using assms
  by (auto elim!: loop_body_cases simp: resolve_feature_set_Inr resolve_frequency_eq)

lemma loop_body_frequency_list_mono:
  assumes "loop_body N F T tx lang base i d r = Inr r'"
    and "map_of (r_frequency_list r) m = Some fq'"
  shows "map_of (r_frequency_list r') m = Some fq'"
  using assms
  by (auto elim!: loop_body_cases simp: resolve_feature_set_Inr resolve_frequency_eq)

lemma loop_body_token:
  assumes "loop_body N F T tx lang base i d r = Inr r'"
  shows "\<exists>t. r_tokens r' = r_tokens r @ [t] \<and> tk_index t = i + base \<and> tk_display t = d \<and>
           tk_feature_set t =
             (if word_bearing d then r_feature_sets r' (N ! r_norm_i r) else None) \<and>
           tk_frequency t =
             (if word_bearing d then map_of (r_frequency_list r') (N ! r_norm_i r) else None) \<and>
           (word_bearing d \<longrightarrow> tk_feature_set t \<noteq> None \<and> tk_frequency t \<noteq> None)"
  using assms
  by (auto elim!: loop_body_cases simp: resolve_feature_set_Inr resolve_frequency_eq)

lemma loop_body_new_feature_sets:
  assumes "loop_body N F T tx lang base i d r = Inr r'"
  shows "\<exists>added. r_new_feature_sets r' = r_new_feature_sets r @ added \<and>
           (\<forall>fs \<in> set added. r_feature_sets r (fs_form fs) = None \<and>
                              r_feature_sets r' (fs_form fs) = Some fs \<and>
                              fs_language fs = lang) \<and>
           (\<forall>m fs. r_feature_sets r m = None \<longrightarrow> r_feature_sets r' m = Some fs \<longrightarrow>
                     fs \<in> set added \<and> fs_form fs = m)"
  using assms
proof (cases rule: loop_body_cases)
  case plain
  then show ?thesis by simp
next
  case (word fs r1 fq r2)
  show ?thesis
  proof (cases "r_feature_sets r (N ! r_norm_i r)")
    case None
    from resolve_feature_set_Inr(7) [OF word(4) None] resolve_frequency_eq(4,5) [OF word(5)]
    show ?thesis
      using None by (auto simp: word(6) split: if_splits)
  next
    case (Some a)
    from resolve_feature_set_Inr(6) [OF word(4) Some] resolve_frequency_eq(4,5) [OF word(5)]
    show ?thesis
      by (auto simp: word(6))
  qed
qed

lemma loop_body_frequency_count:
  assumes "loop_body N F T tx lang base i d r = Inr r'"
    and "(m, fq) \<in> set (r_frequency_list r')"
  shows "(m, fq) \<in> set (r_frequency_list r) \<or> fq_frequency fq = counter_get T m"
  using assms(1)
proof (cases rule: loop_body_cases)
  case plain
  then show ?thesis using assms(2) by simp
next
  case (word fs r1 fq1 r2)
  show ?thesis
  proof (cases "map_of (r_frequency_list r1) (N ! r_norm_i r)")
    case None
    from resolve_frequency_eq(8) [OF word(5) None] resolve_feature_set_Inr(4) [OF word(4)]
    show ?thesis
      using assms(2) by (auto simp: word(6))
  next
    case (Some a)
    from resolve_frequency_eq(7) [OF word(5) Some] resolve_feature_set_Inr(4) [OF word(4)]
    show ?thesis
      using assms(2) by (auto simp: word(6))
  qed
qed

lemma loop_body_Inl:
  assumes "loop_body N F T tx lang base i d r = Inl e"
  shows "word_bearing d \<and>
         (e = IndexError \<and> (length N \<le> r_norm_i r \<or> length F \<le> r_norm_i r) \<or>
          e = TypeError \<and> r_norm_i r < length F \<and> keyword_twice (F ! r_norm_i r))"
  using assms
  by (auto simp: loop_body_def resolve_feature_set_def Let_def
           split: if_splits sum.splits prod.splits option.splits)

lemma for_enumerate_norm_i:
  "for_enumerate (loop_body N F T tx lang base) i ds r = Inr r' \<Longrightarrow>
     r_norm_i r' = r_norm_i r + length (filter word_bearing ds) \<and>
     (filter word_bearing ds \<noteq> [] \<longrightarrow> r_norm_i r' \<le> length N \<and> r_norm_i r' \<le> length F)"
proof (induction ds arbitrary: i r)
  case Nil
  then show ?case by simp
next
  case (Cons d ds)
  then obtain r1 where b: "loop_body N F T tx lang base i d r = Inr r1"
    and l: "for_enumerate (loop_body N F T tx lang base) (Suc i) ds r1 = Inr r'"
    by (auto split: sum.splits)
  from Cons.IH [OF l] loop_body_norm_i [OF b]
  show ?case by (auto split: if_splits)
qed

lemma for_enumerate_feature_sets_mono:
  "for_enumerate (loop_body N F T tx lang base) i ds r = Inr r' \<Longrightarrow>
     r_feature_sets r m = Some fs \<Longrightarrow> r_feature_sets r' m = Some fs"
proof (induction ds arbitrary: i r)
  case Nil
  then show ?case by simp
next
  case (Cons d ds)
  then obtain r1 where b: "loop_body N F T tx lang base i d r = Inr r1"
    and l: "for_enumerate (loop_body N F T tx lang base) (Suc i) ds r1 = Inr r'"
    by (auto split: sum.splits)
  from Cons.IH [OF l] loop_body_feature_sets_mono [OF b Cons.prems(2)]
  show ?case .
qed

lemma for_enumerate_frequency_list_mono:
  "for_enumerate (loop_body N F T tx lang base) i ds r = Inr r' \<Longrightarrow>
     map_of (r_frequency_list r) m = Some fq \<Longrightarrow> map_of (r_frequency_list r') m = Some fq"
proof (induction ds arbitrary: i r)
  case Nil
  then show ?case by simp
next
  case (Cons d ds)
  then obtain r1 where b: "loop_body N F T tx lang base i d r = Inr r1"
    and l: "for_enumerate (loop_body N F T tx lang base) (Suc i) ds r1 = Inr r'"
    by (auto split: sum.splits)
  from Cons.IH [OF l] loop_body_frequency_list_mono [OF b Cons.prems(2)]
  show ?case .
qed

lemma words_before_0: "words_before ds 0 = 0"
  by (simp add: words_before_def)

lemma words_before_Suc:
  "words_before (d # ds) (Suc k) = (if word_bearing d then 1 else 0) + words_before ds k"
  by (simp add: words_before_def)

lemma for_enumerate_tokens:
  "for_enumerate (loop_body N F T tx lang base) i ds r = Inr r' \<Longrightarrow>
     \<exists>ts. r_tokens r' = r_tokens r @ ts \<and> length ts = length ds \<and>
       (\<forall>k < length ds.
          tk_index (ts ! k) = i + k + base \<and> tk_display (ts ! k) = ds ! k \<and>
          tk_feature_set (ts ! k) =
            (if word_bearing (ds ! k)
             then r_feature_sets r' (N ! (r_norm_i r + words_before ds k)) else None) \<and>
          tk_frequency (ts ! k) =
            (if word_bearing (ds ! k)
             then map_of (r_frequency_list r') (N ! (r_norm_i r + words_before ds k)) else None) \<and>
          (word_bearing (ds ! k) \<longrightarrow>
             tk_feature_set (ts ! k) \<noteq> None \<and> tk_frequency (ts ! k) \<noteq> None))"
proof (induction ds arbitrary: i r)
  case Nil
  then show ?case by simp
next
  case (Cons d ds)
  then obtain r1 where b: "loop_body N F T tx lang base i d r = Inr r1"
    and l: "for_enumerate (loop_body N F T tx lang base) (Suc i) ds r1 = Inr r'"
    by (auto split: sum.splits)
  from loop_body_token [OF b] obtain t where t:
    "r_tokens r1 = r_tokens r @ [t]" "tk_index t = i + base" "tk_display t = d"
    "tk_feature_set t = (if word_bearing d then r_feature_sets r1 (N ! r_norm_i r) else None)"
    "tk_frequency t =
       (if word_bearing d then map_of (r_frequency_list r1) (N ! r_norm_i r) else None)"
    "word_bearing d \<longrightarrow> tk_feature_set t \<noteq> None \<and> tk_frequency t \<noteq> None"
    by blast
  from Cons.IH [OF l] obtain ts where ts:
    "r_tokens r' = r_tokens r1 @ ts" "length ts = length ds"
    "\<And>k. k < length ds \<Longrightarrow>
          tk_index (ts ! k) = Suc i + k + base \<and> tk_display (ts ! k) = ds ! k \<and>
          tk_feature_set (ts ! k) =
            (if word_bearing (ds ! k)
             then r_feature_sets r' (N ! (r_norm_i r1 + words_before ds k)) else None) \<and>
          tk_frequency (ts ! k) =
            (if word_bearing (ds ! k)
             then map_of (r_frequency_list r') (N ! (r_norm_i r1 + words_before ds k)) else None) \<and>
          (word_bearing (ds ! k) \<longrightarrow>
             tk_feature_set (ts ! k) \<noteq> None \<and> tk_frequency (ts ! k) \<noteq> None)"
    by blast
  have n1: "r_norm_i r1 = r_norm_i r + (if word_bearing d then 1 else 0)"
    by (rule loop_body_norm_i(1) [OF b])
  have head_fs: "tk_feature_set t =
            (if word_bearing d then r_feature_sets r' (N ! r_norm_i r) else None)"
    using t(4,6) for_enumerate_feature_sets_mono [OF l] by (cases "word_bearing d") auto
  have head_fq: "tk_frequency t =
            (if word_bearing d then map_of (r_frequency_list r') (N ! r_norm_i r) else None)"
    using t(5,6) for_enumerate_frequency_list_mono [OF l] by (cases "word_bearing d") auto
  have "\<forall>k < length (d # ds).
          tk_index ((t # ts) ! k) = i + k + base \<and> tk_display ((t # ts) ! k) = (d # ds) ! k \<and>
          tk_feature_set ((t # ts) ! k) =
            (if word_bearing ((d # ds) ! k)
             then r_feature_sets r' (N ! (r_norm_i r + words_before (d # ds) k)) else None) \<and>
          tk_frequency ((t # ts) ! k) =
            (if word_bearing ((d # ds) ! k)
             then map_of (r_frequency_list r') (N ! (r_norm_i r + words_before (d # ds) k))
             else None) \<and>
          (word_bearing ((d # ds) ! k) \<longrightarrow>
             tk_feature_set ((t # ts) ! k) \<noteq> None \<and> tk_frequency ((t # ts) ! k) \<noteq> None)"
  proof (intro allI impI)
    fix k assume k: "k < length (d # ds)"
    show "tk_index ((t # ts) ! k) = i + k + base \<and> tk_display ((t # ts) ! k) = (d # ds) ! k \<and>
          tk_feature_set ((t # ts) ! k) =
            (if word_bearing ((d # ds) ! k)
             then r_feature_sets r' (N ! (r_norm_i r + words_before (d # ds) k)) else None) \<and>
          tk_frequency ((t # ts) ! k) =
            (if word_bearing ((d # ds) ! k)
             then map_of (r_frequency_list r') (N ! (r_norm_i r + words_before (d # ds) k))
             else None) \<and>
          (word_bearing ((d # ds) ! k) \<longrightarrow>
             tk_feature_set ((t # ts) ! k) \<noteq> None \<and> tk_frequency ((t # ts) ! k) \<noteq> None)"
    proof (cases k)
      case 0
      then show ?thesis
        using t(2,3,6) head_fs head_fq by (simp add: words_before_0)
    next
      case (Suc k')
      then have "k' < length ds" using k by simp
      moreover have "r_norm_i r1 + words_before ds k' =
          r_norm_i r + words_before (d # ds) (Suc k')"
        by (simp add: n1 words_before_Suc)
      ultimately show ?thesis
        using ts(3) [of k'] by (auto simp: Suc dest: sym)
    qed
  qed
  moreover have "r_tokens r' = r_tokens r @ (t # ts)" "length (t # ts) = length (d # ds)"
    using t(1) ts(1,2) by simp_all
  ultimately show ?case by blast
qed

lemma for_enumerate_new_feature_sets:
  "for_enumerate (loop_body N F T tx lang base) i ds r = Inr r' \<Longrightarrow>
     \<exists>added. r_new_feature_sets r' = r_new_feature_sets r @ added \<and>
       (\<forall>fs \<in> set added. r_feature_sets r (fs_form fs) = None \<and>
                          r_feature_sets r' (fs_form fs) = Some fs \<and>
                          fs_language fs = lang) \<and>
       (\<forall>m fs. r_feature_sets r m = None \<longrightarrow> r_feature_sets r' m = Some fs \<longrightarrow>
                 fs \<in> set added \<and> fs_form fs = m)"
proof (induction ds arbitrary: i r)
  case Nil
  then show ?case by simp
next
  case (Cons d ds)
  then obtain r1 where b: "loop_body N F T tx lang base i d r = Inr r1"
    and l: "for_enumerate (loop_body N F T tx lang base) (Suc i) ds r1 = Inr r'"
    by (auto split: sum.splits)
  from loop_body_new_feature_sets [OF b] obtain a1 where a1:
    "r_new_feature_sets r1 = r_new_feature_sets r @ a1"
    "\<And>fs. fs \<in> set a1 \<Longrightarrow> r_feature_sets r (fs_form fs) = None \<and>
                          r_feature_sets r1 (fs_form fs) = Some fs \<and> fs_language fs = lang"
    "\<And>m fs. r_feature_sets r m = None \<Longrightarrow> r_feature_sets r1 m = Some fs \<Longrightarrow>
       fs \<in> set a1 \<and> fs_form fs = m"
    by blast
  from Cons.IH [OF l] obtain a2 where a2:
    "r_new_feature_sets r' = r_new_feature_sets r1 @ a2"
    "\<And>fs. fs \<in> set a2 \<Longrightarrow> r_feature_sets r1 (fs_form fs) = None \<and>
                          r_feature_sets r' (fs_form fs) = Some fs \<and> fs_language fs = lang"
    "\<And>m fs. r_feature_sets r1 m = None \<Longrightarrow> r_feature_sets r' m = Some fs \<Longrightarrow>
       fs \<in> set a2 \<and> fs_form fs = m"
    by blast
  note mono1 = loop_body_feature_sets_mono [OF b]
  note mono2 = for_enumerate_feature_sets_mono [OF l]
  have "r_new_feature_sets r' = r_new_feature_sets r @ (a1 @ a2)"
    using a1(1) a2(1) by simp
  moreover have "\<forall>fs \<in> set (a1 @ a2). r_feature_sets r (fs_form fs) = None \<and>
                          r_feature_sets r' (fs_form fs) = Some fs \<and> fs_language fs = lang"
  proof
    fix fs assume "fs \<in> set (a1 @ a2)"
    then consider "fs \<in> set a1" | "fs \<in> set a2" by auto
    then show "r_feature_sets r (fs_form fs) = None \<and>
                          r_feature_sets r' (fs_form fs) = Some fs \<and> fs_language fs = lang"
    proof cases
      case 1
      with a1(2) mono2 show ?thesis by blast
    next
      case 2
      with a2(2) have *: "r_feature_sets r1 (fs_form fs) = None"
        "r_feature_sets r' (fs_form fs) = Some fs" "fs_language fs = lang" by auto
      have "r_feature_sets r (fs_form fs) = None"
      proof (cases "r_feature_sets r (fs_form fs)")
        case None then show ?thesis .
      next
        case (Some x)
        from mono1 [OF Some] * show ?thesis by simp
      qed
      with * show ?thesis by simp
    qed
  qed
  moreover have "\<forall>m fs. r_feature_sets r m = None \<longrightarrow> r_feature_sets r' m = Some fs \<longrightarrow>
                 fs \<in> set (a1 @ a2) \<and> fs_form fs = m"
  proof (intro allI impI)
    fix m fs assume n: "r_feature_sets r m = None" and s: "r_feature_sets r' m = Some fs"
    show "fs \<in> set (a1 @ a2) \<and> fs_form fs = m"
    proof (cases "r_feature_sets r1 m")
      case None
      from a2(3) [OF None s] show ?thesis by simp
    next
      case (Some x)
      from a1(3) [OF n Some] mono2 [OF Some] s show ?thesis by simp
    qed
  qed
  ultimately show ?case by blast
qed

lemma for_enumerate_frequency_count:
  "for_enumerate (loop_body N F T tx lang base) i ds r = Inr r' \<Longrightarrow>
     (m, fq) \<in> set (r_frequency_list r') \<Longrightarrow>
     (m, fq) \<in> set (r_frequency_list r) \<or> fq_frequency fq = counter_get T m"
proof (induction ds arbitrary: i r)
  case Nil
  then show ?case by simp
next
  case (Cons d ds)
  then obtain r1 where b: "loop_body N F T tx lang base i d r = Inr r1"
    and l: "for_enumerate (loop_body N F T tx lang base) (Suc i) ds r1 = Inr r'"
    by (auto split: sum.splits)
  from Cons.IH [OF l Cons.prems(2)] loop_body_frequency_count [OF b]
  show ?case by blast
qed

lemma for_enumerate_Inl:
  "for_enumerate (loop_body N F T tx lang base) i ds r = Inl e \<Longrightarrow>
     e = IndexError \<or> e = TypeError \<and> list_ex keyword_twice F"
proof (induction ds arbitrary: i r)
  case Nil
  then show ?case by simp
next
  case (Cons d ds)
  show ?case
  proof (cases "loop_body N F T tx lang base i d r")
    case (Inl e')
    with Cons.prems have "e' = e" by simp
    with loop_body_Inl [OF Inl] show ?thesis
      by (auto simp: list_ex_iff)
  next
    case (Inr r1)
    with Cons.prems Cons.IH show ?thesis by simp
  qed
qed

section \<open>From the loop to the call\<close>

lemma tokenize_returned:
  assumes "returned (tokenize U C free self raw record text)"
  obtains s tx F found r where
    "raw = Str s" "text = Some tx"
    "featurize C (normalized_split U raw) = Inr F"
    "connection_find C (tx_language tx) = Inr found"
    "assemble free self (normalized_split U raw) (display_split U s) F found tx = Inr r"
    "tokenize U C free self raw record text =
       (Inr (r_tokens r, map snd (r_frequency_list r), r_new_feature_sets r),
        if record then record_run self (normalized_split U raw) r else self)"
  using assms
  by (auto simp: returned_def tokenize_def Let_def
           split: raw_input.splits sum.splits option.splits)

lemma assemble_tokens:
  assumes "assemble free self N D F found tx = Inr r"
  shows "length (r_tokens r) = length D \<and>
      (\<forall>k < length D.
          tk_index (r_tokens r ! k) = k + length (self_tokens self) \<and>
          tk_display (r_tokens r ! k) = D ! k \<and>
          tk_feature_set (r_tokens r ! k) =
            (if word_bearing (D ! k) then r_feature_sets r (N ! words_before D k) else None) \<and>
          tk_frequency (r_tokens r ! k) =
            (if word_bearing (D ! k)
             then map_of (r_frequency_list r) (N ! words_before D k) else None) \<and>
          (word_bearing (D ! k) \<longrightarrow>
             tk_feature_set (r_tokens r ! k) \<noteq> None \<and> tk_frequency (r_tokens r ! k) \<noteq> None))"
  using for_enumerate_tokens [OF assms [unfolded assemble_def]]
  by (simp cong: if_cong) metis

text \<open>
  On \<^verbatim>\<open>BaseTokenizer\<close> itself a call with a string ends in \<^verbatim>\<open>featurize\<close> (line 119).
\<close>

lemma tokenize_base_featurize:
  "featurize C = base_featurize \<Longrightarrow>
     tokenize U C free self (Str s) record text = (Inl NotImplementedError, self)"
  by (simp add: tokenize_def base_featurize_def)

text \<open>
  The two runs the specification works out by hand: \<^verbatim>\<open>"arma virumque cano"\<close> gives five
  tokens, those at 0, 2 and 4 with a feature set, and three new feature sets;
  \<^verbatim>\<open>"cano cano"\<close> gives three tokens and one new feature set.
\<close>

lemma scenario_A:
  "map tk_display (tokens_of (tokenize ascii (plain :: unit collaborators) 0 clear
      (Str (py ''arma virumque cano'')) True (Some no_language))) =
     [py ''arma'', py '' '', py ''virumque'', py '' '', py ''cano''] \<and>
   map (\<lambda>t. tk_feature_set t \<noteq> None)
     (tokens_of (tokenize ascii (plain :: unit collaborators) 0 clear
        (Str (py ''arma virumque cano'')) True (Some no_language))) =
     [True, False, True, False, True] \<and>
   length (new_feature_sets_of (tokenize ascii (plain :: unit collaborators) 0 clear
      (Str (py ''arma virumque cano'')) True (Some no_language))) = 3"
  by code_simp

lemma scenario_B:
  "map tk_display (tokens_of (tokenize ascii (plain :: unit collaborators) 0 clear
      (Str (py ''cano cano'')) True (Some no_language))) =
     [py ''cano'', py '' '', py ''cano''] \<and>
   length (new_feature_sets_of (tokenize ascii (plain :: unit collaborators) 0 clear
      (Str (py ''cano cano'')) True (Some no_language))) = 1"
  by code_simp

section \<open>\<^verbatim>\<open>normalize\<close>\<close>

text \<open>
  Whether \<^verbatim>\<open>normalize\<close> gives back its own results unchanged is a property of the two
  library functions it composes. With the tables of the ASCII range it does.
\<close>

lemma normalize_ascii_idempotent:
  "normalize ascii (Str (normalize ascii (Str x))) = normalize ascii (Str x)"
  by (simp add: normalize_def ascii_def ascii_lower_def)

lemma normalize_join: "normalize U (StrList xs) = normalize U (Str (join_space xs))"
  by (simp add: normalize_def)

section \<open>\<^verbatim>\<open>sound_trigrams\<close>\<close>

lemma trigram_loop_eq:
  "trigram_loop word trigrams b (b + 3) =
     trigrams @ map (\<lambda>i. take 3 (drop i word)) [b ..< length word - 2]"
proof (induction word trigrams b "b + 3" rule: trigram_loop.induct)
  case (1 word trigrams b)
  show ?case
  proof (cases "b + 3 \<le> length word")
    case True
    then have "[b ..< length word - 2] = b # [Suc b ..< length word - 2]"
      by (simp add: upt_conv_Cons)
    moreover have "drop b (take (b + 3) word) = take 3 (drop b word)"
      by (simp add: drop_take)
    moreover have
      "trigram_loop word (trigrams @ [drop b (take (b + 3) word)]) (b + 1) (b + 1 + 3) =
         (trigrams @ [drop b (take (b + 3) word)]) @
         map (\<lambda>i. take 3 (drop i word)) [b + 1 ..< length word - 2]"
      using 1 True by simp
    ultimately show ?thesis
      using True by (subst trigram_loop.simps) simp
  next
    case False
    then show ?thesis by (subst trigram_loop.simps) simp
  qed
qed

text \<open>
  C10. For every string \<open>w\<close>, \<^verbatim>\<open>sound_trigrams(w)\<close> is the list of the contiguous
  three-character substrings of \<open>w\<close> from left to right: the substring at every start
  position \<open>i\<close> with \<open>i + 3 \<le> len(w)\<close>, each of length three. Its length is
  \<open>len(w) - 2\<close> when \<open>len(w) \<ge> 3\<close>, and it is empty when \<open>len(w) < 3\<close>.
\<close>

theorem sound_trigrams_substrings:
  "sound_trigrams w = map (\<lambda>i. take 3 (drop i w)) [0 ..< length w - 2] \<and>
   list_all (\<lambda>t. length t = 3) (sound_trigrams w) \<and>
   length (sound_trigrams w) = (if 3 \<le> length w then length w - 2 else 0) \<and>
   (length w < 3 \<longrightarrow> sound_trigrams w = [])"
proof -
  have eq: "sound_trigrams w = map (\<lambda>i. take 3 (drop i w)) [0 ..< length w - 2]"
    using trigram_loop_eq [of w "[]" 0] by (simp add: sound_trigrams_def)
  have "list_all (\<lambda>t. length t = 3) (sound_trigrams w)"
    unfolding eq by (auto simp: list_all_iff)
  with eq show ?thesis by auto
qed

theorem sound_trigrams_substrings_witness:
  "sound_trigrams ''abcde'' = [''abc'', ''bcd'', ''cde''] \<and>
   length (sound_trigrams ''abcde'') = 3 \<and> sound_trigrams ''ab'' = []"
  using sound_trigrams_substrings [of "''abcde''"] sound_trigrams_substrings [of "''ab''"]
  by (simp add: upt_rec)

section \<open>The record flag\<close>

text \<open>
  C3. For every input and every session state, a call of \<^verbatim>\<open>tokenize\<close> with
  \<^verbatim>\<open>record=False\<close> leaves the session as it was: the token list, the frequency counter
  and the feature-set cache after the call are those before it, whether the call returns
  or raises.
\<close>

theorem tokenize_dry_run:
  "snd (tokenize U C free self raw False text) = self"
  by (simp add: tokenize_def Let_def split: raw_input.split sum.split option.split)

theorem tokenize_dry_run_witness:
  "returned (tokenize ascii (plain :: unit collaborators) 0 clear
      (Str (py ''cano cano'')) False (Some no_language)) \<and>
   snd (tokenize ascii (plain :: unit collaborators) 0 clear
      (Str (py ''cano cano'')) False (Some no_language)) = clear"
proof -
  have "returned (tokenize ascii (plain :: unit collaborators) 0 clear
      (Str (py ''cano cano'')) False (Some no_language))"
    by code_simp
  with tokenize_dry_run [of ascii "plain :: unit collaborators" 0 clear
      "Str (py ''cano cano'')" "Some no_language"]
  show ?thesis by simp
qed

text \<open>
  C9. For every input, text metadata, collaborator response and session state, what
  \<^verbatim>\<open>tokenize\<close> returns (the triple of tokens, frequencies and new feature sets, or the
  exception) is the same for \<^verbatim>\<open>record=True\<close> and \<^verbatim>\<open>record=False\<close>.
\<close>

theorem tokenize_record_irrelevant:
  "fst (tokenize U C free self raw True text) = fst (tokenize U C free self raw False text)"
  by (simp add: tokenize_def Let_def split: raw_input.split sum.split option.split)

theorem tokenize_record_irrelevant_witness:
  "returned (tokenize ascii (plain :: unit collaborators) 0 clear
      (Str (py ''cano cano'')) True (Some no_language)) \<and>
   fst (tokenize ascii (plain :: unit collaborators) 0 clear
      (Str (py ''cano cano'')) True (Some no_language)) =
   fst (tokenize ascii (plain :: unit collaborators) 0 clear
      (Str (py ''cano cano'')) False (Some no_language))"
proof -
  have "returned (tokenize ascii (plain :: unit collaborators) 0 clear
      (Str (py ''cano cano'')) True (Some no_language))"
    by code_simp
  with tokenize_record_irrelevant [of ascii "plain :: unit collaborators" 0 clear
      "Str (py ''cano cano'')" "Some no_language"]
  show ?thesis by simp
qed

section \<open>Token indices\<close>

lemma tokenize_tokens:
  assumes "returned (tokenize U C free self (Str s) record text)"
  shows "length (tokens_of (tokenize U C free self (Str s) record text)) =
           length (display_split U s) \<and>
         (\<forall>k < length (display_split U s).
            tk_index (tokens_of (tokenize U C free self (Str s) record text) ! k) =
              k + length (self_tokens self) \<and>
            tk_display (tokens_of (tokenize U C free self (Str s) record text) ! k) =
              display_split U s ! k)"
  using assms
proof (cases rule: tokenize_returned)
  case (1 s' tx F found r)
  have t: "tokens_of (tokenize U C free self (Str s) record text) = r_tokens r"
    by (simp add: 1(6) tokens_of_def)
  from 1(1) have "s' = s" by simp
  from assemble_tokens [OF 1(5) [unfolded this]] show ?thesis
    unfolding t by blast
qed

lemma tokenize_recorded_tokens:
  assumes "returned (tokenize U C free self raw True text)"
  shows "self_tokens (snd (tokenize U C free self raw True text)) =
           self_tokens self @ tokens_of (tokenize U C free self raw True text)"
  using assms
proof (cases rule: tokenize_returned)
  case (1 s' tx F found r)
  show ?thesis
    by (simp add: 1(6) tokens_of_def record_run_def)
qed

lemma map_index_upt:
  assumes "\<forall>k < length ts. tk_index (ts ! k) = k + b"
  shows "map tk_index ts = [b ..< b + length ts]"
  using assms
  by (intro nth_equalityI) (auto simp: add.commute)

text \<open>
  C6. In every call of \<^verbatim>\<open>tokenize\<close> that returns, the tokens are as many as the display
  tokens of the call, and the token at position \<open>k\<close> carries the display token at
  \<open>k\<close> and the index \<open>k\<close> plus the number of tokens the session held when the call
  started. Hence, when two consecutive calls with \<^verbatim>\<open>record=True\<close> return, every index of
  the second call is above every index of the first, and the indices of both calls
  together are the numbers from the first base on, one after the other, none missing and
  none twice.
\<close>

theorem tokenize_index:
  "(returned (tokenize U C free self (Str s) record text) \<longrightarrow>
      length (tokens_of (tokenize U C free self (Str s) record text)) =
        length (display_split U s) \<and>
      (\<forall>k < length (display_split U s).
         tk_index (tokens_of (tokenize U C free self (Str s) record text) ! k) =
           k + length (self_tokens self) \<and>
         tk_display (tokens_of (tokenize U C free self (Str s) record text) ! k) =
           display_split U s ! k)) \<and>
   (returned (tokenize U C free self (Str s) True text) \<longrightarrow>
    returned (tokenize U C free' (snd (tokenize U C free self (Str s) True text))
                (Str s') True text') \<longrightarrow>
      (\<forall>t \<in> set (tokens_of (tokenize U C free self (Str s) True text)).
       \<forall>t' \<in> set (tokens_of (tokenize U C free'
                      (snd (tokenize U C free self (Str s) True text)) (Str s') True text')).
         tk_index t < tk_index t') \<and>
      map tk_index
        (tokens_of (tokenize U C free self (Str s) True text) @
         tokens_of (tokenize U C free' (snd (tokenize U C free self (Str s) True text))
                      (Str s') True text')) =
        [length (self_tokens self) ..<
           length (self_tokens self) + length (display_split U s) +
           length (display_split U s')])"
proof (intro conjI impI)
  assume "returned (tokenize U C free self (Str s) record text)"
  from tokenize_tokens [OF this]
  show "length (tokens_of (tokenize U C free self (Str s) record text)) =
        length (display_split U s)"
    and "\<forall>k < length (display_split U s).
         tk_index (tokens_of (tokenize U C free self (Str s) record text) ! k) =
           k + length (self_tokens self) \<and>
         tk_display (tokens_of (tokenize U C free self (Str s) record text) ! k) =
           display_split U s ! k"
    by simp_all
next
  define c1 where "c1 = tokenize U C free self (Str s) True text"
  define c2 where "c2 = tokenize U C free' (snd c1) (Str s') True text'"
  assume "returned (tokenize U C free self (Str s) True text)"
    and "returned (tokenize U C free' (snd (tokenize U C free self (Str s) True text))
                (Str s') True text')"
  then have r1: "returned c1" and r2: "returned c2"
    by (simp_all add: c1_def c2_def)
  have b: "self_tokens (snd c1) = self_tokens self @ tokens_of c1"
    using tokenize_recorded_tokens r1 unfolding c1_def by blast
  have l1: "length (tokens_of c1) = length (display_split U s)"
    and "\<forall>k < length (tokens_of c1). tk_index (tokens_of c1 ! k) = k + length (self_tokens self)"
    using tokenize_tokens [of U C free self s True "text"] r1 unfolding c1_def by simp_all
  then have m1: "map tk_index (tokens_of c1) =
      [length (self_tokens self) ..< length (self_tokens self) + length (tokens_of c1)]"
    by (intro map_index_upt)
  have l2: "length (tokens_of c2) = length (display_split U s')"
    and "\<forall>k < length (tokens_of c2).
      tk_index (tokens_of c2 ! k) = k + (length (self_tokens self) + length (tokens_of c1))"
    using tokenize_tokens [of U C free' "snd c1" s' True "text'"] r2 b unfolding c2_def
    by simp_all
  then have m2: "map tk_index (tokens_of c2) =
      [length (self_tokens self) + length (tokens_of c1) ..<
       length (self_tokens self) + length (tokens_of c1) + length (tokens_of c2)]"
    by (intro map_index_upt)
  have "map tk_index (tokens_of c1 @ tokens_of c2) =
      [length (self_tokens self) ..<
       length (self_tokens self) + length (tokens_of c1) + length (tokens_of c2)]"
    unfolding map_append m1 m2
    by (metis le_add1 upt_add_eq_append add.assoc)
  then show "map tk_index
        (tokens_of (tokenize U C free self (Str s) True text) @
         tokens_of (tokenize U C free' (snd (tokenize U C free self (Str s) True text))
                      (Str s') True text')) =
        [length (self_tokens self) ..<
           length (self_tokens self) + length (display_split U s) +
           length (display_split U s')]"
    using l1 l2 by (simp add: c1_def c2_def)
  have "\<forall>t \<in> set (tokens_of c1). \<forall>t' \<in> set (tokens_of c2). tk_index t < tk_index t'"
  proof (intro ballI)
    fix t t' assume "t \<in> set (tokens_of c1)" "t' \<in> set (tokens_of c2)"
    then have "tk_index t \<in> set (map tk_index (tokens_of c1))"
      "tk_index t' \<in> set (map tk_index (tokens_of c2))" by simp_all
    then show "tk_index t < tk_index t'"
      unfolding m1 m2 by simp
  qed
  then show "\<forall>t \<in> set (tokens_of (tokenize U C free self (Str s) True text)).
       \<forall>t' \<in> set (tokens_of (tokenize U C free'
                      (snd (tokenize U C free self (Str s) True text)) (Str s') True text')).
         tk_index t < tk_index t'"
    by (simp add: c1_def c2_def)
qed

theorem tokenize_index_witness:
  "returned (tokenize ascii (plain :: unit collaborators) 0 clear
      (Str (py ''a b'')) True (Some no_language)) \<and>
   returned (tokenize ascii (plain :: unit collaborators) 4
      (snd (tokenize ascii (plain :: unit collaborators) 0 clear
         (Str (py ''a b'')) True (Some no_language)))
      (Str (py ''c'')) True (Some no_language)) \<and>
   map tk_index
     (tokens_of (tokenize ascii (plain :: unit collaborators) 0 clear
        (Str (py ''a b'')) True (Some no_language)) @
      tokens_of (tokenize ascii (plain :: unit collaborators) 4
        (snd (tokenize ascii (plain :: unit collaborators) 0 clear
           (Str (py ''a b'')) True (Some no_language)))
        (Str (py ''c'')) True (Some no_language))) = [0 ..< 4]"
proof -
  have r1: "returned (tokenize ascii (plain :: unit collaborators) 0 clear
      (Str (py ''a b'')) True (Some no_language))"
    by code_simp
  have r2: "returned (tokenize ascii (plain :: unit collaborators) 4
      (snd (tokenize ascii (plain :: unit collaborators) 0 clear
         (Str (py ''a b'')) True (Some no_language)))
      (Str (py ''c'')) True (Some no_language))"
    by code_simp
  have d1: "length (display_split ascii (py ''a b'')) = 3"
    by code_simp
  have d2: "length (display_split ascii (py ''c'')) = 1"
    by code_simp
  from tokenize_index [of ascii "plain :: unit collaborators" 0 clear "py ''a b''" True
      "Some no_language" 4 "py ''c''" "Some no_language"] r1 r2
  show ?thesis
    by (simp add: d1 d2 clear_def)
qed

section \<open>Streams of different lengths\<close>

lemma assemble_norm_i:
  assumes "assemble free self N D F found tx = Inr r"
    and "filter word_bearing D \<noteq> []"
  shows "length (filter word_bearing D) \<le> length N \<and> length (filter word_bearing D) \<le> length F"
  using for_enumerate_norm_i [OF assms(1) [unfolded assemble_def]] assms(2) by simp

text \<open>
  C1 (amended). The code has no bounds check of its own and no \<open>AlignmentBoundsError\<close>:
  the subscripts \<^verbatim>\<open>normalized[norm_i]\<close> and \<^verbatim>\<open>featurized[norm_i]\<close> run past the end.
  For every call in which \<^verbatim>\<open>featurize\<close> and the seed lookup have returned and the
  word-bearing display tokens are more than the normalized tokens or more than the
  feature dictionaries, \<^verbatim>\<open>tokenize\<close> returns no result and leaves the session as it was:
  it raises \<^verbatim>\<open>IndexError\<close>, unless a feature dictionary with the key \<^verbatim>\<open>form\<close> or
  \<^verbatim>\<open>language\<close> has raised \<^verbatim>\<open>TypeError\<close> before.
\<close>

theorem tokenize_out_of_range:
  assumes "featurize C (normalized_split U (Str s)) = Inr featurized"
    and "connection_find C (tx_language tx) = Inr found"
    and "length (normalized_split U (Str s)) < length (filter word_bearing (display_split U s)) \<or>
         length featurized < length (filter word_bearing (display_split U s))"
  shows "tokenize U C free self (Str s) record (Some tx) = (Inl IndexError, self) \<or>
         tokenize U C free self (Str s) record (Some tx) = (Inl TypeError, self) \<and>
         list_ex keyword_twice featurized"
proof (cases "assemble free self (normalized_split U (Str s)) (display_split U s) featurized found tx")
  case (Inl e)
  from for_enumerate_Inl [OF Inl [unfolded assemble_def]]
  have "e = IndexError \<or> e = TypeError \<and> list_ex keyword_twice featurized" .
  moreover have "tokenize U C free self (Str s) record (Some tx) = (Inl e, self)"
    using assms(1,2) Inl by (simp add: tokenize_def)
  ultimately show ?thesis by auto
next
  case (Inr r)
  from assms(3) have "filter word_bearing (display_split U s) \<noteq> []" by auto
  from assemble_norm_i [OF Inr this] assms(3) show ?thesis by simp
qed

theorem tokenize_out_of_range_witness:
  "length (normalized_split ascii (Str (py ''a1b''))) <
     length (filter word_bearing (display_split ascii (py ''a1b''))) \<and>
   tokenize ascii (plain :: unit collaborators) 0 clear (Str (py ''a1b'')) True
     (Some no_language) = (Inl IndexError, clear)"
proof -
  have f: "featurize (plain :: unit collaborators) (normalized_split ascii (Str (py ''a1b''))) =
      Inr [[]]"
    by code_simp
  have c: "connection_find (plain :: unit collaborators) (tx_language no_language) = Inr []"
    by code_simp
  have l: "length (normalized_split ascii (Str (py ''a1b''))) <
     length (filter word_bearing (display_split ascii (py ''a1b'')))"
    by code_simp
  have k: "\<not> list_ex keyword_twice ([[]] :: (ustr \<times> unit) list list)"
    by code_simp
  from tokenize_out_of_range [OF f c disjI1 [OF l], of 0 clear True] k l
  show ?thesis by simp
qed

text \<open>
  The claim as first stated fails at \<^verbatim>\<open>"a1b"\<close>: two word-bearing display tokens
  (\<^verbatim>\<open>a\<close>, \<^verbatim>\<open>b\<close>), one normalized token (\<^verbatim>\<open>a1b\<close>), and the exception is
  \<^verbatim>\<open>IndexError\<close>, not \<open>AlignmentBoundsError\<close>.
\<close>

theorem tokenize_out_of_range_counterexample:
  "length (normalized_split ascii (Str (py ''a1b''))) <
     length (filter word_bearing (display_split ascii (py ''a1b''))) \<and>
   fst (tokenize ascii (plain :: unit collaborators) 0 clear (Str (py ''a1b'')) True
     (Some no_language)) = Inl IndexError \<and>
   fst (tokenize ascii (plain :: unit collaborators) 0 clear (Str (py ''a1b'')) True
     (Some no_language)) \<noteq> Inl AlignmentBoundsError"
  by code_simp

section \<open>Absent text metadata\<close>

text \<open>
  C4. The claim is that a call with \<^verbatim>\<open>text=None\<close> succeeds with the language taken as
  null. In the code every such call that gets past \<^verbatim>\<open>featurize\<close> raises
  \<^verbatim>\<open>AttributeError\<close> at \<^verbatim>\<open>text.language\<close> in line 127, before the \<^verbatim>\<open>try\<close> block of
  lines 137 to 140 that would have made the language \<^verbatim>\<open>None\<close>.
\<close>

theorem tokenize_text_None:
  assumes "featurize C (normalized_split U (Str s)) = Inr featurized"
  shows "tokenize U C free self (Str s) record None = (Inl AttributeError, self)"
  using assms by (simp add: tokenize_def)

theorem tokenize_text_None_witness:
  "tokenize ascii (plain :: unit collaborators) 0 clear
     (Str (py ''arma virumque cano'')) True None = (Inl AttributeError, clear)"
proof -
  have "featurize (plain :: unit collaborators)
      (normalized_split ascii (Str (py ''arma virumque cano''))) = Inr [[], [], []]"
    by code_simp
  from tokenize_text_None [OF this] show ?thesis .
qed

section \<open>The session frequency counter\<close>

lemma normalized_split_nonempty: "[] \<notin> set (normalized_split U raw)"
  by (simp add: normalized_split_def)

text \<open>
  C7 (amended). After every call with \<^verbatim>\<open>record=True\<close> that returns, the session
  frequency counter is the counter before the call, with its empty-string key removed,
  plus the tally of the call's normalized tokens: the empty string is no key of it, a
  normalized token of the call has its number of occurrences in the call added to its
  earlier count (0 if it had none), and every other key keeps its count.
\<close>

theorem tokenize_recorded_frequencies:
  assumes "returned (tokenize U C free self raw True text)"
  shows "self_frequencies (snd (tokenize U C free self raw True text)) k =
     (if k = [] then None
      else if k \<in> set (normalized_split U raw)
      then Some (int (count_list (normalized_split U raw) k) +
                 (case self_frequencies self k of None \<Rightarrow> 0 | Some c \<Rightarrow> c))
      else self_frequencies self k)"
  using assms
proof (cases rule: tokenize_returned)
  case (1 s' tx F found r)
  show ?thesis
    using normalized_split_nonempty [of U raw]
    by (auto simp add: 1(6) record_run_def counter_update_def Counter_def counter_get_def
        split: option.splits)
qed

theorem tokenize_recorded_frequencies_witness:
  "returned (tokenize ascii (plain :: unit collaborators) 0
      (clear\<lparr>self_frequencies := [[] \<mapsto> 5, py ''a'' \<mapsto> 2, py ''b'' \<mapsto> 1]\<rparr>)
      (Str (py ''a a'')) True (Some no_language)) \<and>
   self_frequencies (snd (tokenize ascii (plain :: unit collaborators) 0
      (clear\<lparr>self_frequencies := [[] \<mapsto> 5, py ''a'' \<mapsto> 2, py ''b'' \<mapsto> 1]\<rparr>)
      (Str (py ''a a'')) True (Some no_language))) (py ''a'') = Some 4 \<and>
   self_frequencies (snd (tokenize ascii (plain :: unit collaborators) 0
      (clear\<lparr>self_frequencies := [[] \<mapsto> 5, py ''a'' \<mapsto> 2, py ''b'' \<mapsto> 1]\<rparr>)
      (Str (py ''a a'')) True (Some no_language))) (py ''b'') = Some 1 \<and>
   self_frequencies (snd (tokenize ascii (plain :: unit collaborators) 0
      (clear\<lparr>self_frequencies := [[] \<mapsto> 5, py ''a'' \<mapsto> 2, py ''b'' \<mapsto> 1]\<rparr>)
      (Str (py ''a a'')) True (Some no_language))) [] = None"
proof -
  have r: "returned (tokenize ascii (plain :: unit collaborators) 0
      (clear\<lparr>self_frequencies := [[] \<mapsto> 5, py ''a'' \<mapsto> 2, py ''b'' \<mapsto> 1]\<rparr>)
      (Str (py ''a a'')) True (Some no_language))"
    by code_simp
  have n: "normalized_split ascii (Str (py ''a a'')) = [py ''a'', py ''a'']"
    by code_simp
  have p: "py ''a'' = [97]" "py ''b'' = [98]"
    by (simp_all add: py_def)
  show ?thesis
    using r tokenize_recorded_frequencies [OF r, of "py ''a''"]
      tokenize_recorded_frequencies [OF r, of "py ''b''"]
      tokenize_recorded_frequencies [OF r, of "[]"]
    by (simp add: n p clear_def)
qed

text \<open>
  The claim as first stated removes the empty string from the tally and keeps it in the
  session counter. The code does the opposite: a session counter that holds the empty
  string with count 5 holds no empty string after the call.
\<close>

theorem tokenize_recorded_frequencies_counterexample:
  "returned (tokenize ascii (plain :: unit collaborators) 0
      (clear\<lparr>self_frequencies := [[] \<mapsto> 5]\<rparr>) (Str (py ''a'')) True (Some no_language)) \<and>
   self_frequencies (clear\<lparr>self_frequencies := [[] \<mapsto> 5]\<rparr> :: unit tokenizer) [] = Some 5 \<and>
   counter_update (self_frequencies (clear\<lparr>self_frequencies := [[] \<mapsto> 5]\<rparr> :: unit tokenizer))
     ((Counter (normalized_split ascii (Str (py ''a''))))([] := None)) [] = Some 5 \<and>
   self_frequencies (snd (tokenize ascii (plain :: unit collaborators) 0
      (clear\<lparr>self_frequencies := [[] \<mapsto> 5]\<rparr>) (Str (py ''a'')) True (Some no_language))) [] =
     None"
  by code_simp

section \<open>Feature sets and frequencies of a call\<close>

lemma fold_by_form:
  "fold (\<lambda>fs m. m(fs_form fs \<mapsto> fs)) found m0 n = Some fs \<Longrightarrow>
     m0 n = Some fs \<or> fs \<in> set found \<and> fs_form fs = n"
proof (induction found arbitrary: m0)
  case Nil
  then show ?case by simp
next
  case (Cons a found)
  from Cons.prems have "fold (\<lambda>fs m. m(fs_form fs \<mapsto> fs)) found (m0(fs_form a \<mapsto> a)) n = Some fs"
    by (simp del: fun_upd_apply)
  from Cons.IH [OF this] show ?case
    by (cases "fs_form a = n") auto
qed

lemma by_form_Some: "by_form found n = Some fs \<Longrightarrow> fs \<in> set found \<and> fs_form fs = n"
  using fold_by_form [of found Map.empty n fs] by (simp add: by_form_def)

lemma counter_get_Counter: "counter_get (Counter N) n = int (count_list N n)"
  by (simp add: counter_get_def Counter_def count_list_0_iff)

lemma assemble_feature_sets:
  assumes "assemble free self N D F found tx = Inr r"
  shows "by_form found m = Some fs \<Longrightarrow> r_feature_sets r m = Some fs"
    and "\<forall>fs \<in> set (r_new_feature_sets r).
           by_form found (fs_form fs) = None \<and> r_feature_sets r (fs_form fs) = Some fs \<and>
           fs_language fs = tx_language tx"
    and "by_form found m = None \<Longrightarrow> r_feature_sets r m = Some fs \<Longrightarrow>
           fs \<in> set (r_new_feature_sets r) \<and> fs_form fs = m"
proof -
  show "by_form found m = Some fs \<Longrightarrow> r_feature_sets r m = Some fs"
    using for_enumerate_feature_sets_mono [OF assms [unfolded assemble_def]] by simp
  from for_enumerate_new_feature_sets [OF assms [unfolded assemble_def]]
  obtain added where a: "r_new_feature_sets r = added"
    "\<forall>fs \<in> set added. by_form found (fs_form fs) = None \<and>
        r_feature_sets r (fs_form fs) = Some fs \<and> fs_language fs = tx_language tx"
    "\<forall>m fs. by_form found m = None \<longrightarrow> r_feature_sets r m = Some fs \<longrightarrow>
        fs \<in> set added \<and> fs_form fs = m"
    by auto
  from a(1,2) show "\<forall>fs \<in> set (r_new_feature_sets r).
           by_form found (fs_form fs) = None \<and> r_feature_sets r (fs_form fs) = Some fs \<and>
           fs_language fs = tx_language tx" by simp
  from a(1,3) show "by_form found m = None \<Longrightarrow> r_feature_sets r m = Some fs \<Longrightarrow>
           fs \<in> set (r_new_feature_sets r) \<and> fs_form fs = m" by simp
qed

lemma assemble_word_token:
  assumes "assemble free self N D F found tx = Inr r"
    and "k < length D" and "word_bearing (D ! k)"
  obtains fs fq where
    "tk_feature_set (r_tokens r ! k) = Some fs"
    "r_feature_sets r (N ! words_before D k) = Some fs"
    "tk_frequency (r_tokens r ! k) = Some fq"
    "map_of (r_frequency_list r) (N ! words_before D k) = Some fq"
proof -
  from assemble_tokens [OF assms(1), THEN conjunct2, rule_format, OF assms(2)] assms(3)
  have h: "tk_feature_set (r_tokens r ! k) = r_feature_sets r (N ! words_before D k)"
    "tk_frequency (r_tokens r ! k) = map_of (r_frequency_list r) (N ! words_before D k)"
    "tk_feature_set (r_tokens r ! k) \<noteq> None" "tk_frequency (r_tokens r ! k) \<noteq> None"
    by simp_all metis+
  from h(3,4) obtain fs fq where s:
    "tk_feature_set (r_tokens r ! k) = Some fs" "tk_frequency (r_tokens r ! k) = Some fq"
    by auto
  show thesis
    by (rule that [OF s(1) _ s(2)]) (use h(1,2) s in simp_all)
qed

lemma assemble_feature_set_form:
  assumes "assemble free self N D F found tx = Inr r" and "r_feature_sets r m = Some fs"
  shows "fs_form fs = m"
proof (cases "by_form found m")
  case None
  from assemble_feature_sets(3) [OF assms(1) None assms(2)] show ?thesis by simp
next
  case (Some x)
  from assemble_feature_sets(1) [OF assms(1) Some] assms(2) by_form_Some [OF Some]
  show ?thesis by simp
qed

lemma assemble_frequency_count:
  assumes "assemble free self N D F found tx = Inr r"
    and "map_of (r_frequency_list r) m = Some fq"
  shows "fq_frequency fq = int (count_list N m)"
  using for_enumerate_frequency_count [OF assms(1) [unfolded assemble_def] map_of_SomeD [OF assms(2)]]
  by (simp add: counter_get_Counter)


lemma consumed_forms:
  "length (filter word_bearing D) \<le> length N \<Longrightarrow>
     map (\<lambda>p. N ! words_before D p) (filter (\<lambda>p. word_bearing (D ! p)) [0 ..< length D]) =
       take (length (filter word_bearing D)) N"
proof (induction D arbitrary: N)
  case Nil
  then show ?case by simp
next
  case (Cons d D)
  have upt: "[0 ..< length (d # D)] = 0 # map Suc [0 ..< length D]"
    by (simp add: upt_conv_Cons map_Suc_upt del: upt_Suc)
  show ?case
  proof (cases "word_bearing d")
    case True
    with Cons.prems obtain n N' where N: "N = n # N'"
      by (cases N) auto
    with Cons.prems True have "length (filter word_bearing D) \<le> length N'" by simp
    from Cons.IH [OF this] True show ?thesis
      unfolding upt by (simp add: filter_map comp_def words_before_Suc words_before_0 N)
  next
    case False
    with Cons.prems have "length (filter word_bearing D) \<le> length N" by simp
    from Cons.IH [OF this] False show ?thesis
      unfolding upt by (simp add: filter_map comp_def words_before_Suc)
  qed
qed

lemma consumed_count:
  assumes "length (filter word_bearing D) = length N"
  shows "length (filter (\<lambda>p. word_bearing (D ! p) \<and> N ! words_before D p = f) [0 ..< length D]) =
         count_list N f"
proof -
  have "length (filter (\<lambda>p. word_bearing (D ! p) \<and> N ! words_before D p = f) [0 ..< length D]) =
      length (filter (\<lambda>p. N ! words_before D p = f)
                (filter (\<lambda>p. word_bearing (D ! p)) [0 ..< length D]))"
    by (simp add: conj_commute)
  also have "\<dots> = length (filter (\<lambda>x. x = f)
      (map (\<lambda>p. N ! words_before D p) (filter (\<lambda>p. word_bearing (D ! p)) [0 ..< length D])))"
    by (simp add: filter_map comp_def)
  also have "\<dots> = length (filter (\<lambda>x. x = f) N)"
    using consumed_forms [of D N] assms by simp
  also have "\<dots> = length (filter ((=) f) N)"
    by (rule arg_cong [where f = length], rule filter_cong) auto
  also have "\<dots> = count_list N f"
    by (simp add: count_list_eq_length_filter)
  finally show ?thesis .
qed

text \<open>
  What the loop pairs. The word-bearing display token at position \<open>i\<close> is given the
  normalized token under the cursor, \<open>normalized ! words_before display i\<close>, whatever
  the text of the display token is. Two display tokens that the cursor pairs with the same
  form get the same FeatureSet and the same Frequency, and the count of the Frequency is
  the tally of that form in the normalized stream.
\<close>

lemma tokenize_cursor_objects:
  assumes "returned (tokenize U C free self (Str s) record text)"
    and "i < length (display_split U s)" and "j < length (display_split U s)"
    and "word_bearing (display_split U s ! i)" and "word_bearing (display_split U s ! j)"
    and "normalized_split U (Str s) ! words_before (display_split U s) i = f"
    and "normalized_split U (Str s) ! words_before (display_split U s) j = f"
  shows "\<exists>fs fq.
      tk_feature_set (tokens_of (tokenize U C free self (Str s) record text) ! i) = Some fs \<and>
      tk_feature_set (tokens_of (tokenize U C free self (Str s) record text) ! j) = Some fs \<and>
      tk_frequency (tokens_of (tokenize U C free self (Str s) record text) ! i) = Some fq \<and>
      tk_frequency (tokens_of (tokenize U C free self (Str s) record text) ! j) = Some fq \<and>
      fs_form fs = f \<and>
      fq_frequency fq = int (count_list (normalized_split U (Str s)) f) \<and>
      (length (filter word_bearing (display_split U s)) = length (normalized_split U (Str s)) \<longrightarrow>
         fq_frequency fq =
           int (length (filter
             (\<lambda>p. word_bearing (display_split U s ! p) \<and>
                  normalized_split U (Str s) ! words_before (display_split U s) p = f)
             [0 ..< length (display_split U s)])))"
  using assms(1)
proof (cases rule: tokenize_returned)
  case (1 s' tx F found r)
  define N where "N = normalized_split U (Str s)"
  define D where "D = display_split U s"
  have t: "tokens_of (tokenize U C free self (Str s) record text) = r_tokens r"
    by (simp add: 1(6) tokens_of_def)
  from 1(1) have "s' = s" by simp
  with 1(5) have a: "assemble free self N D F found tx = Inr r"
    by (simp add: N_def D_def)
  have Ni: "N ! words_before D i = f" and Nj: "N ! words_before D j = f"
    using assms(6,7) by (simp_all add: N_def D_def)
  from assms(2,4) have "i < length D" "word_bearing (D ! i)"
    by (simp_all add: D_def)
  from assemble_word_token [OF a this] obtain fs fq where
    i: "tk_feature_set (r_tokens r ! i) = Some fs" "r_feature_sets r f = Some fs"
       "tk_frequency (r_tokens r ! i) = Some fq" "map_of (r_frequency_list r) f = Some fq"
    unfolding Ni by blast
  from assms(3,5) have "j < length D" "word_bearing (D ! j)"
    by (simp_all add: D_def)
  from assemble_word_token [OF a this] i(2,4) have
    j: "tk_feature_set (r_tokens r ! j) = Some fs" "tk_frequency (r_tokens r ! j) = Some fq"
    unfolding Nj by auto
  have c: "fq_frequency fq = int (count_list N f)"
    by (rule assemble_frequency_count [OF a i(4)])
  have "fs_form fs = f"
    by (rule assemble_feature_set_form [OF a i(2)])
  moreover have "length (filter word_bearing D) = length N \<longrightarrow>
         fq_frequency fq =
           int (length (filter (\<lambda>p. word_bearing (D ! p) \<and> N ! words_before D p = f)
             [0 ..< length D]))"
    using consumed_count [of D N f] c by simp
  ultimately show ?thesis
    using i(1,3) j c unfolding t N_def D_def by blast
qed

text \<open>
  C5. The claim is that the tokens of one normalized form share one FeatureSet and one
  Frequency, whose count is their number. The code breaks it where the two splits
  disagree: the normalized split keeps what \<^verbatim>\<open>\w\<close> matches, digits too (the docstring of
  \<^verbatim>\<open>normalize\<close> has them removed), and the display split keeps \<^verbatim>\<open>a-zA-Z\<close> only. At
  \<^verbatim>\<open>"a 1 a"\<close> the display tokens at 0 and 4 are both \<^verbatim>\<open>a\<close>, whose normalized form is
  \<^verbatim>\<open>a\<close>, and the normalized stream is \<^verbatim>\<open>a\<close>, \<^verbatim>\<open>1\<close>, \<^verbatim>\<open>a\<close>. The second \<^verbatim>\<open>a\<close> is given
  the FeatureSet and the Frequency of \<^verbatim>\<open>1\<close>: the two tokens share neither object, and
  the two Frequency counts are 2 and 1.
\<close>

theorem tokenize_misaligned_objects:
  "display_split ascii (py ''a 1 a'') = [py ''a'', py '' '', py ''1'', py '' '', py ''a''] \<and>
   normalized_split ascii (Str (py ''a 1 a'')) = [py ''a'', py ''1'', py ''a''] \<and>
   normalized_split ascii (Str (py ''a'')) = [py ''a''] \<and>
   returned (tokenize ascii (plain :: unit collaborators) 0 clear
      (Str (py ''a 1 a'')) True (Some no_language)) \<and>
   tk_display (tokens_of (tokenize ascii (plain :: unit collaborators) 0 clear
      (Str (py ''a 1 a'')) True (Some no_language)) ! 0) = py ''a'' \<and>
   tk_display (tokens_of (tokenize ascii (plain :: unit collaborators) 0 clear
      (Str (py ''a 1 a'')) True (Some no_language)) ! 4) = py ''a'' \<and>
   map_option fs_form
     (tk_feature_set (tokens_of (tokenize ascii (plain :: unit collaborators) 0 clear
        (Str (py ''a 1 a'')) True (Some no_language)) ! 0)) = Some (py ''a'') \<and>
   map_option fs_form
     (tk_feature_set (tokens_of (tokenize ascii (plain :: unit collaborators) 0 clear
        (Str (py ''a 1 a'')) True (Some no_language)) ! 4)) = Some (py ''1'') \<and>
   tk_feature_set (tokens_of (tokenize ascii (plain :: unit collaborators) 0 clear
        (Str (py ''a 1 a'')) True (Some no_language)) ! 0) \<noteq>
   tk_feature_set (tokens_of (tokenize ascii (plain :: unit collaborators) 0 clear
        (Str (py ''a 1 a'')) True (Some no_language)) ! 4) \<and>
   tk_frequency (tokens_of (tokenize ascii (plain :: unit collaborators) 0 clear
        (Str (py ''a 1 a'')) True (Some no_language)) ! 0) \<noteq>
   tk_frequency (tokens_of (tokenize ascii (plain :: unit collaborators) 0 clear
        (Str (py ''a 1 a'')) True (Some no_language)) ! 4) \<and>
   map_option fq_frequency
     (tk_frequency (tokens_of (tokenize ascii (plain :: unit collaborators) 0 clear
        (Str (py ''a 1 a'')) True (Some no_language)) ! 0)) = Some 2 \<and>
   map_option fq_frequency
     (tk_frequency (tokens_of (tokenize ascii (plain :: unit collaborators) 0 clear
        (Str (py ''a 1 a'')) True (Some no_language)) ! 4)) = Some 1"
  by code_simp




end
